theory Spec2Isabelle
  imports Main "HOL-Library.Product_Lexorder"
begin

section \<open>Time and errors\<close>

text \<open>
  A Python \<^verbatim>\<open>datetime\<close> is modelled by its wall-clock reading in microseconds (the
  resolution of \<^verbatim>\<open>datetime\<close>), a \<^verbatim>\<open>date\<close> by its day number. Every datetime the scheduler
  compares carries the same \<^verbatim>\<open>tzinfo\<close> (\<^verbatim>\<open>TZ\<close>), and Python subtracts and orders such values
  by their wall-clock fields, so one integer line is what the code computes on.
  \<^verbatim>\<open>timedelta(minutes=m)\<close> is \<open>minutes m\<close>. The test
  \<^verbatim>\<open>(bs - cur).total_seconds() / 60.0 >= duration_min\<close> is taken in exact arithmetic:
  \<open>minutes duration_min \<le> bs - cur\<close>.
\<close>

type_synonym instant = int
type_synonym day = int

definition minutes :: "int \<Rightarrow> int" where
  "minutes m = m * 60000000"

definition hours :: "int \<Rightarrow> int" where
  "hours h = h * 3600000000"

definition days :: "int \<Rightarrow> int" where
  "days d = d * 86400000000"

text \<open>The exceptions that matter: Python's \<^verbatim>\<open>TypeError\<close>, and any failure of a call to
  the Google API (network, HTTP error, missing credentials).\<close>

datatype error = TypeError | AdapterError

section \<open>server/scheduler\_engine.py: the gap scan\<close>

text \<open>\<^verbatim>\<open>WORK_START = time(9, 0)\<close>, \<^verbatim>\<open>WORK_END = time(18, 0)\<close> and \<^verbatim>\<open>_day_bounds\<close>.\<close>

definition day_start :: "day \<Rightarrow> instant" where
  "day_start d = days d + hours 9"

definition day_end :: "day \<Rightarrow> instant" where
  "day_end d = days d + hours 18"

text \<open>
  The body of \<^verbatim>\<open>_find_free_slot\<close> once the busy list is at hand. \<open>tail_gap\<close> is the test
  after the loop; \<open>scan_gaps\<close> is the \<^verbatim>\<open>for (bs, be) in busy\<close> loop with its early
  \<^verbatim>\<open>return\<close> and its \<^verbatim>\<open>break\<close>; \<open>len\<close> is the duration in microseconds.
\<close>

definition tail_gap :: "instant \<Rightarrow> int \<Rightarrow> instant \<Rightarrow> (instant \<times> instant) option" where
  "tail_gap dend len cur = (if len \<le> dend - cur then Some (cur, cur + len) else None)"

fun scan_gaps :: "instant \<Rightarrow> int \<Rightarrow> instant \<Rightarrow> (instant \<times> instant) list
    \<Rightarrow> (instant \<times> instant) option" where
  "scan_gaps dend len cur [] = tail_gap dend len cur"
| "scan_gaps dend len cur ((bs, be) # rest) =
     (if len \<le> bs - cur then Some (cur, cur + len)
      else if dend < max cur be then tail_gap dend len (max cur be)
      else scan_gaps dend len (max cur be) rest)"

text \<open>\<^verbatim>\<open>if duration_min <= 0: duration_min = 30\<close>\<close>

definition clamp_duration :: "int \<Rightarrow> int" where
  "clamp_duration duration_min = (if duration_min \<le> 0 then 30 else duration_min)"

definition free_slot_scan :: "instant \<Rightarrow> instant \<Rightarrow> (instant \<times> instant) list \<Rightarrow> int
    \<Rightarrow> (instant \<times> instant) option" where
  "free_slot_scan dstart dend busy duration_min =
     scan_gaps dend (minutes (clamp_duration duration_min)) dstart busy"

subsection \<open>What a free slot is\<close>

text \<open>
  Busy intervals are half-open. A slot of length \<open>len\<close> starting at \<open>t\<close> is free in
  the window \<open>[ws, we]\<close> when it lies inside the window and meets no busy interval.
\<close>

definition clear_of :: "instant \<Rightarrow> int \<Rightarrow> (instant \<times> instant) \<Rightarrow> bool" where
  "clear_of t len b = (t + len \<le> fst b \<or> snd b \<le> t)"

definition fits :: "instant \<Rightarrow> instant \<Rightarrow> (instant \<times> instant) list \<Rightarrow> int \<Rightarrow> instant \<Rightarrow> bool" where
  "fits ws we busy len t = (ws \<le> t \<and> t + len \<le> we \<and> list_all (clear_of t len) busy)"

text \<open>Sorted ascending and mutually non-overlapping: every interval is non-empty and
  ends no later than the next one starts.\<close>

fun separated :: "(instant \<times> instant) list \<Rightarrow> bool" where
  "separated [] = True"
| "separated [(s, e)] = (s < e)"
| "separated ((s, e) # (s', e') # rest) = (s < e \<and> e \<le> s' \<and> separated ((s', e') # rest))"

definition within :: "instant \<Rightarrow> instant \<Rightarrow> (instant \<times> instant) list \<Rightarrow> bool" where
  "within ws we busy = list_all (\<lambda>b. ws \<le> fst b \<and> snd b \<le> we) busy"

section \<open>server/connect\_gcal.py: the calendar as the scheduler sees it\<close>

text \<open>
  The Google calendar is outside the repository. It is modelled by the events it holds and
  by whether a request reaches it. Of an event the scheduler reads the start and the end
  only; each is \<open>None\<close> when the field is missing or does not parse, the two cases that
  \<^verbatim>\<open>_busy_intervals_for_day\<close> skips. An event id is an opaque token; the model numbers the
  events in the order of their creation. The cap \<^verbatim>\<open>maxResults=250\<close> is not modelled.
\<close>

type_synonym event = "instant option \<times> instant option"
type_synonym event_id = nat

record calendar =
  events :: "event list"
  reachable :: bool

text \<open>\<^verbatim>\<open>events().list(timeMin, timeMax)\<close> gives the events that end after \<open>time_min\<close> and
  start before \<open>time_max\<close>.\<close>

fun in_window :: "instant \<Rightarrow> instant \<Rightarrow> event \<Rightarrow> bool" where
  "in_window time_min time_max (Some s, Some e) = (s < time_max \<and> time_min < e)"
| "in_window time_min time_max ev = True"

definition list_events_between :: "calendar \<Rightarrow> instant \<Rightarrow> instant \<Rightarrow> error + event list" where
  "list_events_between c time_min time_max =
     (if reachable c then Inr (filter (in_window time_min time_max) (events c))
      else Inl AdapterError)"

text \<open>\<^verbatim>\<open>create_event_summary\<close> inserts the event and returns \<^verbatim>\<open>ev.get("id")\<close>.\<close>

definition create_event_summary :: "calendar \<Rightarrow> instant \<Rightarrow> instant
    \<Rightarrow> error + (event_id option \<times> calendar)" where
  "create_event_summary c start_dt end_dt =
     (if reachable c
      then Inr (Some (length (events c)), c\<lparr>events := events c @ [(Some start_dt, Some end_dt)]\<rparr>)
      else Inl AdapterError)"

text \<open>\<^verbatim>\<open>_busy_intervals_for_day\<close>: events without a start or an end are skipped, the rest
  is sorted by start (Python's sort is stable, as \<open>sort_key\<close> is).\<close>

fun timed :: "event list \<Rightarrow> (instant \<times> instant) list" where
  "timed [] = []"
| "timed ((Some s, Some e) # evs) = (s, e) # timed evs"
| "timed (ev # evs) = timed evs"

definition busy_intervals_for_day :: "calendar \<Rightarrow> day \<Rightarrow> error + (instant \<times> instant) list" where
  "busy_intervals_for_day c d =
     (case list_events_between c (day_start d) (day_end d) of
        Inl e \<Rightarrow> Inl e
      | Inr evs \<Rightarrow> Inr (sort_key fst (timed evs)))"

definition find_free_slot :: "calendar \<Rightarrow> day \<Rightarrow> int \<Rightarrow> error + (instant \<times> instant) option" where
  "find_free_slot c d duration_min =
     (case busy_intervals_for_day c d of
        Inl e \<Rightarrow> Inl e
      | Inr busy \<Rightarrow> Inr (free_slot_scan (day_start d) (day_end d) busy duration_min))"

section \<open>server/storage.py and plan\_all\_pending\<close>

text \<open>
  A row of the table \<^verbatim>\<open>tasks\<close>, with the columns the scheduler reads or writes (\<^verbatim>\<open>source\<close>,
  \<^verbatim>\<open>raw_ref\<close> and \<^verbatim>\<open>notes\<close> are left out). \<^verbatim>\<open>due\<close> and \<^verbatim>\<open>planned_at\<close> are \<^verbatim>\<open>DateTime\<close>
  columns: their values are datetimes.
\<close>

record task_row =
  row_id :: nat
  row_title :: string
  due :: "instant option"
  duration_min :: int
  priority :: int
  planned_at :: "instant option"
  calendar_event_id :: "event_id option"
  status :: string

text \<open>
  \<^verbatim>\<open>due_key\<close> returns \<^verbatim>\<open>t.due\<close>, a \<^verbatim>\<open>datetime\<close>, or
  \<^verbatim>\<open>datetime.now(TZ).date() + timedelta(days=2)\<close>, a \<^verbatim>\<open>date\<close>. Python orders datetimes among
  themselves and dates among themselves; \<^verbatim>\<open><\<close> between a \<^verbatim>\<open>datetime\<close> and a \<^verbatim>\<open>date\<close> raises
  \<^verbatim>\<open>TypeError\<close>. The current date \<open>today\<close> is taken to be the same all through a pass.
\<close>

datatype due_value = DateTime instant | Date day

definition due_key :: "day \<Rightarrow> task_row \<Rightarrow> due_value" where
  "due_key today t = (case due t of Some dt \<Rightarrow> DateTime dt | None \<Rightarrow> Date (today + 2))"

text \<open>
  \<^verbatim>\<open>tasks.sort(key=lambda t: (due_key(t), -(t.priority or 0)))\<close>. A list that holds a task
  with a due date and a task without one has two neighbours of different key types in any
  order, so the sort compares a \<^verbatim>\<open>datetime\<close> with a \<^verbatim>\<open>date\<close> and raises. Otherwise all
  first components are of one type and the tuples are ordered lexicographically.
\<close>

definition sort_value :: "day \<Rightarrow> task_row \<Rightarrow> int \<times> int" where
  "sort_value today t =
     ((case due_key today t of DateTime dt \<Rightarrow> dt | Date d \<Rightarrow> d), - priority t)"

definition sort_tasks :: "day \<Rightarrow> task_row list \<Rightarrow> error + task_row list" where
  "sort_tasks today ts =
     (if list_ex (\<lambda>t. due t = None) ts \<and> list_ex (\<lambda>t. due t \<noteq> None) ts then Inl TypeError
      else Inr (sort_key (sort_value today) ts))"

text \<open>
  The \<^verbatim>\<open>while d <= last_day\<close> loop for one task, from day \<open>d\<close> on. It returns the calendar,
  the task and the slot it booked, if any (\<^verbatim>\<open>placed\<close> is whether there is one). An
  exception of the adapter leaves the loop. \<^verbatim>\<open>t.duration_min or 60\<close> turns 0 into 60.
\<close>

function place_from :: "calendar \<Rightarrow> task_row \<Rightarrow> day \<Rightarrow> day
    \<Rightarrow> error + (calendar \<times> task_row \<times> (instant \<times> instant) option)" where
  "place_from c t d last_day =
     (if d \<le> last_day then
        (case find_free_slot c d (if duration_min t = 0 then 60 else duration_min t) of
           Inl e \<Rightarrow> Inl e
         | Inr None \<Rightarrow> place_from c t (d + 1) last_day
         | Inr (Some (start_dt, end_dt)) \<Rightarrow>
             (case create_event_summary c start_dt end_dt of
                Inl e \<Rightarrow> Inl e
              | Inr (eid, c') \<Rightarrow>
                  Inr (c', t\<lparr>status := ''planned'', planned_at := Some start_dt,
                              calendar_event_id := eid\<rparr>, Some (start_dt, end_dt))))
      else Inr (c, t, None))"
  by pat_completeness auto
termination
  by (relation "measure (\<lambda>(c, t, d, last_day). nat (last_day + 1 - d))") auto

text \<open>
  The database and the calendar together; \<^verbatim>\<open>db.add(t); db.commit()\<close> writes the row back
  under its primary key. The outcome of a pass is the world it leaves, the bookings it
  made (row id, start, end, event id) in order, and the exception that ended it, if any.
\<close>

record world =
  db :: "task_row list"
  cal :: calendar

record outcome =
  final :: world
  booked :: "(nat \<times> instant \<times> instant \<times> event_id option) list"
  raised :: "error option"

definition commit :: "task_row \<Rightarrow> task_row list \<Rightarrow> task_row list" where
  "commit t rows = map (\<lambda>r. if row_id r = row_id t then t else r) rows"

text \<open>
  The \<^verbatim>\<open>for t in tasks\<close> loop. \<^verbatim>\<open>min(today, last_day)\<close> compares the date \<^verbatim>\<open>today\<close> with
  \<^verbatim>\<open>due_key(t)\<close> and raises \<^verbatim>\<open>TypeError\<close> when that is a datetime. Nothing catches an
  exception inside the loop.
\<close>

fun plan_tasks :: "day \<Rightarrow> world \<Rightarrow> task_row list \<Rightarrow> outcome" where
  "plan_tasks today w [] = \<lparr>final = w, booked = [], raised = None\<rparr>"
| "plan_tasks today w (t # ts) =
     (case due_key today t of
        DateTime dt \<Rightarrow> \<lparr>final = w, booked = [], raised = Some TypeError\<rparr>
      | Date last_day \<Rightarrow>
          (case place_from (cal w) t (min today last_day) last_day of
             Inl e \<Rightarrow> \<lparr>final = w, booked = [], raised = Some e\<rparr>
           | Inr (c', t', None) \<Rightarrow> plan_tasks today (w\<lparr>cal := c'\<rparr>) ts
           | Inr (c', t', Some (start_dt, end_dt)) \<Rightarrow>
               (let out = plan_tasks today \<lparr>db = commit t' (db w), cal = c'\<rparr> ts
                in out\<lparr>booked := (row_id t', start_dt, end_dt, calendar_event_id t') # booked out\<rparr>)))"

definition plan_all_pending :: "day \<Rightarrow> world \<Rightarrow> outcome" where
  "plan_all_pending today w =
     (case sort_tasks today (filter (\<lambda>t. status t = ''pending'') (db w)) of
        Inl e \<Rightarrow> \<lparr>final = w, booked = [], raised = Some e\<rparr>
      | Inr ts \<Rightarrow> plan_tasks today w ts)"

text \<open>A calendar extends another when it holds the same events and then some.\<close>

definition extends :: "calendar \<Rightarrow> calendar \<Rightarrow> bool" where
  "extends c c' = (reachable c' = reachable c \<and> (\<exists>more. events c' = events c @ more))"

section \<open>backend/main.py: the step-jump slot finder\<close>

text \<open>The \<^verbatim>\<open>hour\<close> and \<^verbatim>\<open>minute\<close> fields of a datetime, its \<^verbatim>\<open>date()\<close>, and
  \<^verbatim>\<open>replace(hour=h, minute=m)\<close>, which keeps the date, the seconds and the microseconds.\<close>

definition hour :: "instant \<Rightarrow> int" where
  "hour t = (t div 3600000000) mod 24"

definition minute :: "instant \<Rightarrow> int" where
  "minute t = (t div 60000000) mod 60"

definition date_of :: "instant \<Rightarrow> day" where
  "date_of t = t div 86400000000"

definition replace_hm :: "instant \<Rightarrow> int \<Rightarrow> int \<Rightarrow> instant" where
  "replace_hm t h m = t - hours (hour t) - minutes (minute t) + hours h + minutes m"

text \<open>
  Check 2 of the loop: the first busy slot, in the order of the reply, that overlaps
  \<open>[cur, end_time)\<close>; the scan then jumps to that slot's end.
\<close>

fun first_overlap :: "(instant \<times> instant) list \<Rightarrow> instant \<Rightarrow> instant \<Rightarrow> instant option" where
  "first_overlap [] cur end_time = None"
| "first_overlap ((slot_start, slot_end) # rest) cur end_time =
     (if cur < slot_end \<and> slot_start < end_time then Some slot_end
      else first_overlap rest cur end_time)"

text \<open>\<^verbatim>\<open>if current_time.minute % 5 != 0: current_time += timedelta(minutes=5 - minute % 5)\<close>\<close>

definition round_up5 :: "instant \<Rightarrow> instant" where
  "round_up5 t = (if minute t mod 5 \<noteq> 0 then t + minutes (5 - minute t mod 5) else t)"

text \<open>
  \<^verbatim>\<open>for _ in range(96)\<close>, with the number of iterations left as first argument. When a
  candidate is outside working hours the code evaluates
  \<^verbatim>\<open>(current_time.date() + timedelta(days=1)).replace(hour=WORK_START_HOUR, minute=0)\<close>;
  \<^verbatim>\<open>date.replace\<close> has no \<^verbatim>\<open>hour\<close> parameter, so this raises \<^verbatim>\<open>TypeError\<close>. When the
  iterations run out the loop falls through to \<^verbatim>\<open>return start_time\<close>.
\<close>

fun step_scan :: "nat \<Rightarrow> (instant \<times> instant) list \<Rightarrow> int \<Rightarrow> instant \<Rightarrow> instant
    \<Rightarrow> error + instant" where
  "step_scan 0 busy_slots duration_minutes start_time current_time = Inr start_time"
| "step_scan (Suc n) busy_slots duration_minutes start_time current_time =
     (let end_time = current_time + minutes duration_minutes in
      if hour current_time < 9 \<or> (18 < hour end_time \<or> (hour end_time = 18 \<and> 0 < minute end_time))
      then Inl TypeError
      else (case first_overlap busy_slots current_time end_time of
              Some slot_end \<Rightarrow>
                step_scan n busy_slots duration_minutes start_time (round_up5 slot_end)
            | None \<Rightarrow> Inr current_time))"

text \<open>
  \<^verbatim>\<open>GoogleServices.find_free_slot\<close>. \<open>has_service\<close> says whether \<^verbatim>\<open>self.cal_service\<close> is
  set; \<open>freebusy time_min time_max\<close> is the outcome of the free/busy query: the busy
  slots of the reply, parsed, or an exception. The adjustment of an early or late
  \<open>start_time\<close> stands before the \<^verbatim>\<open>try\<close>, so the \<^verbatim>\<open>TypeError\<close> of the late branch
  (\<^verbatim>\<open>date.replace(hour=...)\<close> again) leaves the function; \<open>scan_from\<close> is the \<^verbatim>\<open>try\<close>
  block, whose \<^verbatim>\<open>except Exception\<close> returns the adjusted \<open>start_time\<close>.
\<close>

definition scan_from :: "(instant \<Rightarrow> instant \<Rightarrow> error + (instant \<times> instant) list) \<Rightarrow> instant
    \<Rightarrow> int \<Rightarrow> error + instant" where
  "scan_from freebusy start_time duration_minutes =
     (case freebusy start_time (start_time + days 3) of
        Inl e \<Rightarrow> Inr start_time
      | Inr busy_slots \<Rightarrow>
          (case step_scan 96 busy_slots duration_minutes start_time start_time of
             Inl e \<Rightarrow> Inr start_time
           | Inr found \<Rightarrow> Inr found))"

definition google_find_free_slot :: "bool \<Rightarrow> (instant \<Rightarrow> instant \<Rightarrow> error + (instant \<times> instant) list)
    \<Rightarrow> instant \<Rightarrow> int \<Rightarrow> error + instant" where
  "google_find_free_slot has_service freebusy start_time duration_minutes =
     (if \<not> has_service then Inr start_time
      else if hour start_time < 9
        then scan_from freebusy (replace_hm start_time 9 0) duration_minutes
      else if 18 \<le> hour start_time then Inl TypeError
      else scan_from freebusy start_time duration_minutes)"

section \<open>backend/main.py: tasks and the bucket classification\<close>

text \<open>
  The pydantic model \<^verbatim>\<open>Task\<close>. \<^verbatim>\<open>AppState.tasks\<close> is a list of Task objects that the
  flows mutate in place and that other lists share, so the objects live in a store and
  the lists hold their addresses.
\<close>

record task =
  task_id :: string
  title :: string
  dueDate :: "instant option"
  duration :: "int option"
  planDay :: string
  needsClarification :: bool
  pendingQuestions :: "string list"
  calendarEventId :: "string option"
  isExternal :: bool

type_synonym ref = nat

record app_state =
  store :: "ref \<Rightarrow> task"
  tasks :: "ref list"

text \<open>The body of the loop of \<^verbatim>\<open>simple_plan\<close>, for one task.\<close>

definition plan_task :: "instant \<Rightarrow> task \<Rightarrow> task" where
  "plan_task now t =
     (if needsClarification t then t\<lparr>planDay := ''unscheduled''\<rparr>
      else (case dueDate t of
              Some due_dt \<Rightarrow>
                if date_of due_dt = date_of now then t\<lparr>planDay := ''today''\<rparr>
                else if date_of due_dt = date_of (now + days 1) then t\<lparr>planDay := ''tomorrow''\<rparr>
                else t\<lparr>planDay := ''unscheduled''\<rparr>
            | None \<Rightarrow> t\<lparr>planDay := ''unscheduled''\<rparr>))"

definition simple_plan :: "instant \<Rightarrow> app_state \<Rightarrow> app_state" where
  "simple_plan now state =
     state\<lparr>store := fold (\<lambda>r h. h(r := plan_task now (h r))) (tasks state) (store state)\<rparr>"

section \<open>backend/main.py: the scheduling flows\<close>

text \<open>
  The Google services are outside the repository. Their state is a value of any type
  \<open>'w\<close>; \<open>cal_service\<close> says whether \<^verbatim>\<open>self.cal_service\<close> is set, \<open>freebusy_query\<close> is the
  free/busy query and \<open>insert_event\<close> is \<^verbatim>\<open>events().insert(...).execute()\<close> followed by
  \<^verbatim>\<open>event.get("id")\<close>: it may raise, and it may change the state. The description and the
  attendees of an event are left out.
\<close>

record 'w google =
  cal_service :: "'w \<Rightarrow> bool"
  freebusy_query :: "'w \<Rightarrow> instant \<Rightarrow> instant \<Rightarrow> error + (instant \<times> instant) list"
  insert_event :: "'w \<Rightarrow> string \<Rightarrow> instant \<Rightarrow> instant \<Rightarrow> (error + string option) \<times> 'w"

definition create_event :: "'w google \<Rightarrow> 'w \<Rightarrow> string \<Rightarrow> instant \<Rightarrow> instant
    \<Rightarrow> (error + string option) \<times> 'w" where
  "create_event g w summary start_t end_t =
     (if \<not> cal_service g w
      then (Inr (Some ''ERROR: Google Calendar service not available.''), w)
      else insert_event g w summary start_t end_t)"

text \<open>
  A run of a flow: the application state, the state of the services, and the bookings
  made so far, one entry (task, start, end) for each event that \<open>insert_event\<close> created.
\<close>

record 'w run =
  app :: app_state
  service :: 'w
  bookings :: "(ref \<times> instant \<times> instant) list"

text \<open>
  \<^verbatim>\<open>parse_gmail_tasks\<close> builds each task as
  \<^verbatim>\<open>Task(id=..., title=..., dueDate=due, duration=duration, planDay="unscheduled", isExternal=True)\<close>,
  the other fields at their defaults; a missing duration has become 60 before.
\<close>

definition gmail_task :: "string \<Rightarrow> string \<Rightarrow> instant option \<Rightarrow> int \<Rightarrow> task" where
  "gmail_task uuid ttl due_dt dur =
     \<lparr>task_id = uuid, title = ttl, dueDate = due_dt, duration = Some dur,
      planDay = ''unscheduled'', needsClarification = False, pendingQuestions = [],
      calendarEventId = None, isExternal = True\<rparr>"

text \<open>\<^verbatim>\<open>str.lower\<close>, on ASCII letters.\<close>

definition lower :: "string \<Rightarrow> string" where
  "lower str = map (\<lambda>c. if 65 \<le> (of_char c :: nat) \<and> (of_char c :: nat) \<le> 90
                           then char_of ((of_char c :: nat) + 32) else c) str"

text \<open>
  The body of the \<^verbatim>\<open>try\<close> in step 6 of \<^verbatim>\<open>run_full_sync\<close>, for the task at \<open>r\<close>. Any
  exception is caught and printed, and the loop goes on. A task without a due date cannot
  reach this loop; \<^verbatim>\<open>find_free_slot(None, ...)\<close> would raise and be caught.
\<close>

definition schedule_auto_task :: "'w google \<Rightarrow> ref \<Rightarrow> 'w run \<Rightarrow> 'w run" where
  "schedule_auto_task g r run =
     (let t = store (app run) r; w = service run in
      case dueDate t of
        None \<Rightarrow> run
      | Some start_time \<Rightarrow>
          (let task_duration = (case duration t of Some d \<Rightarrow> d | None \<Rightarrow> 60) in
           case google_find_free_slot (cal_service g w) (freebusy_query g w) start_time task_duration of
             Inl e \<Rightarrow> run
           | Inr final_start_time \<Rightarrow>
               (let final_end_time = final_start_time + minutes task_duration in
                case create_event g w (''FlowPilot: '' @ title t) final_start_time final_end_time of
                  (Inl e, w') \<Rightarrow> run\<lparr>service := w'\<rparr>
                | (Inr event_id, w') \<Rightarrow>
                    run\<lparr>app := (app run)\<lparr>store := (store (app run))
                            (r := t\<lparr>calendarEventId := event_id,
                                    dueDate := Some final_start_time\<rparr>)\<rparr>,
                        service := w',
                        bookings := bookings run @
                          (if cal_service g w then [(r, final_start_time, final_end_time)]
                           else [])\<rparr>)))"

text \<open>
  \<^verbatim>\<open>run_full_sync\<close> from step 4 on. \<open>state\<close> is \<^verbatim>\<open>STATE\<close> after the calendar and Canvas
  syncs, \<open>gmail_tasks\<close> are the tasks that \<^verbatim>\<open>sync_gmail\<close> returned, and \<open>get_ai_deadline\<close>
  is the planner's answer for a title (\<open>None\<close> when it fails). \<^verbatim>\<open>t not in tasks_to_schedule\<close>
  compares Task objects by their fields.
\<close>

definition append_new_titles :: "ref list \<Rightarrow> app_state \<Rightarrow> app_state" where
  "append_new_titles gmail_tasks state =
     fold (\<lambda>r s. if list_ex (\<lambda>x. lower (title (store s x)) = lower (title (store s r))) (tasks s)
                  then s else s\<lparr>tasks := tasks s @ [r]\<rparr>) gmail_tasks state"

definition needs_deadline :: "app_state \<Rightarrow> ref \<Rightarrow> bool" where
  "needs_deadline state r =
     (dueDate (store state r) = None \<and> planDay (store state r) = ''unscheduled''
      \<and> \<not> needsClarification (store state r))"

definition ai_plan :: "(string \<Rightarrow> instant option) \<Rightarrow> ref list \<Rightarrow> app_state \<Rightarrow> app_state" where
  "ai_plan get_ai_deadline tasks_to_plan state =
     fold (\<lambda>r s. case get_ai_deadline (title (store s r)) of
                    Some ai_due_date \<Rightarrow>
                      s\<lparr>store := (store s)(r := (store s r)\<lparr>dueDate := Some ai_due_date\<rparr>)\<rparr>
                  | None \<Rightarrow> s) tasks_to_plan state"

definition run_full_sync :: "'w google \<Rightarrow> (string \<Rightarrow> instant option) \<Rightarrow> instant \<Rightarrow> app_state
    \<Rightarrow> 'w \<Rightarrow> ref list \<Rightarrow> 'w run" where
  "run_full_sync g get_ai_deadline now state w gmail_tasks =
     (let state1 = append_new_titles gmail_tasks state;
          tasks_to_plan = filter (needs_deadline state1) (tasks state1);
          state2 = ai_plan get_ai_deadline tasks_to_plan state1;
          tasks_to_schedule = filter (\<lambda>r. dueDate (store state2 r) \<noteq> None) tasks_to_plan;
          gmail_tasks_with_dates =
            filter (\<lambda>r. dueDate (store state2 r) \<noteq> None
                         \<and> \<not> list_ex (\<lambda>x. store state2 x = store state2 r) tasks_to_schedule)
              gmail_tasks;
          run = fold (schedule_auto_task g) (tasks_to_schedule @ gmail_tasks_with_dates)
                  \<lparr>app = state2, service = w, bookings = []\<rparr>
      in run\<lparr>app := simple_plan now (app run)\<rparr>)"

text \<open>
  \<^verbatim>\<open>run_agent_flow\<close> after the parse: \<open>new_tasks\<close> are the tasks of the voice command.
  A task without a due date gets its start from a first search from now on.
\<close>

definition schedule_new_task :: "'w google \<Rightarrow> instant \<Rightarrow> ref \<Rightarrow> 'w run \<Rightarrow> 'w run" where
  "schedule_new_task g now r run =
     (let t = store (app run) r; w = service run;
          task_duration = (case duration t of Some d \<Rightarrow> d | None \<Rightarrow> 60) in
      case (case dueDate t of
              Some due_dt \<Rightarrow> Inr due_dt
            | None \<Rightarrow> google_find_free_slot (cal_service g w) (freebusy_query g w) now task_duration) of
        Inl e \<Rightarrow> run
      | Inr start_time \<Rightarrow>
          (case google_find_free_slot (cal_service g w) (freebusy_query g w) start_time task_duration of
             Inl e \<Rightarrow> run
           | Inr final_start_time \<Rightarrow>
               (let final_end_time = final_start_time + minutes task_duration in
                case create_event g w (''FlowPilot: '' @ title t) final_start_time final_end_time of
                  (Inl e, w') \<Rightarrow> run\<lparr>service := w'\<rparr>
                | (Inr event_id, w') \<Rightarrow>
                    run\<lparr>app := (app run)\<lparr>store := (store (app run))
                            (r := t\<lparr>calendarEventId := event_id,
                                    dueDate := Some final_start_time\<rparr>)\<rparr>,
                        service := w',
                        bookings := bookings run @
                          (if cal_service g w then [(r, final_start_time, final_end_time)]
                           else [])\<rparr>)))"

definition run_agent_flow :: "'w google \<Rightarrow> instant \<Rightarrow> app_state \<Rightarrow> 'w \<Rightarrow> ref list \<Rightarrow> 'w run" where
  "run_agent_flow g now state w new_tasks =
     (if new_tasks = [] then \<lparr>app = state, service = w, bookings = []\<rparr>
      else
        (let state1 = state\<lparr>tasks := tasks state @ new_tasks\<rparr>;
             tasks_to_schedule = filter (\<lambda>r. \<not> needsClarification (store state1 r)) new_tasks;
             run = fold (schedule_new_task g now) tasks_to_schedule
                     \<lparr>app = state1, service = w, bookings = []\<rparr>
         in run\<lparr>app := simple_plan now (app run)\<rparr>))"

section \<open>Properties of the gap scan\<close>

lemma separated_sorted: "separated busy \<Longrightarrow> sorted (map fst busy)"
proof (induction busy rule: separated.induct)
  case (3 s e s' e' rest)
  then have tl: "sorted (map fst ((s', e') # rest))" and le: "s \<le> s'"
    by auto
  then show ?case by auto
qed auto

lemma separated_nonempty: "separated busy \<Longrightarrow> \<forall>b \<in> set busy. fst b < snd b"
  by (induction busy rule: separated.induct) auto

text \<open>Soundness needs only that the list is ordered by start and that no interval starts
  after the window's end.\<close>

lemma scan_gaps_sound:
  assumes "sorted (map fst busy)" and "\<forall>b \<in> set busy. fst b \<le> dend" and "0 < len"
    and "scan_gaps dend len cur busy = Some (s, e)"
  shows "e = s + len \<and> cur \<le> s \<and> e \<le> dend \<and> (\<forall>b \<in> set busy. clear_of s len b)"
  using assms
proof (induction busy arbitrary: cur)
  case Nil
  then show ?case by (auto simp: tail_gap_def split: if_splits)
next
  case (Cons b rest)
  obtain bs be where b: "b = (bs, be)" by (cases b)
  show ?case
  proof (cases "len \<le> bs - cur")
    case True
    with Cons.prems b have se: "s = cur" "e = cur + len" by auto
    from Cons.prems(1) b have "\<forall>x \<in> set rest. bs \<le> fst x" by auto
    with True se Cons.prems(2) b show ?thesis by (auto simp: clear_of_def)
  next
    case False
    show ?thesis
    proof (cases "dend < max cur be")
      case True
      with False Cons.prems b show ?thesis by (auto simp: tail_gap_def split: if_splits)
    next
      case nobreak: False
      with False Cons.prems b have rec: "scan_gaps dend len (max cur be) rest = Some (s, e)"
        by simp
      from Cons.prems have "sorted (map fst rest)" "\<forall>x \<in> set rest. fst x \<le> dend" by auto
      from Cons.IH[OF this Cons.prems(3) rec]
      have "e = s + len" "max cur be \<le> s" "e \<le> dend" "\<forall>x \<in> set rest. clear_of s len x"
        by auto
      then show ?thesis using b by (auto simp: clear_of_def)
    qed
  qed
qed

text \<open>Whatever the order of the list, the scan stops no later than any free slot that
  starts at or after \<open>cur\<close>.\<close>

lemma scan_gaps_earliest:
  assumes "0 < len" and "cur \<le> t" and "t + len \<le> dend" and "\<forall>b \<in> set busy. clear_of t len b"
  shows "\<exists>s. scan_gaps dend len cur busy = Some (s, s + len) \<and> s \<le> t"
  using assms
proof (induction busy arbitrary: cur)
  case Nil
  then show ?case by (auto simp: tail_gap_def)
next
  case (Cons b rest)
  obtain bs be where b: "b = (bs, be)" by (cases b)
  show ?case
  proof (cases "len \<le> bs - cur")
    case True
    with Cons.prems b show ?thesis by simp
  next
    case False
    with Cons.prems b have "be \<le> t" by (auto simp: clear_of_def)
    with Cons.prems have m: "max cur be \<le> t" by simp
    with Cons.prems have "\<not> dend < max cur be" by linarith
    moreover from Cons.prems have "\<forall>x \<in> set rest. clear_of t len x" by simp
    from Cons.IH[OF Cons.prems(1) m Cons.prems(3) this]
    obtain s where "scan_gaps dend len (max cur be) rest = Some (s, s + len)" "s \<le> t" by blast
    ultimately show ?thesis using False b by auto
  qed
qed

lemma clamp_duration_pos: "0 < minutes (clamp_duration d)"
  by (simp add: clamp_duration_def minutes_def)

text \<open>
  Claim C1. Let the busy intervals be sorted ascending, mutually non-overlapping and inside
  the window \<open>[ws, we]\<close>, and let the positive duration \<open>d\<close> (minutes) fit in the window,
  that is, some placement of \<open>d\<close> minutes inside the window meets no busy interval. Then
  the free-slot finder returns a slot \<open>[s, s + d]\<close> with \<open>ws \<le> s\<close>, \<open>s + d \<le> we\<close>, clear
  of every busy interval.
\<close>

theorem find_free_slot_returns_free_slot:
  assumes "separated busy" and "within ws we busy" and "0 < d"
    and "\<exists>t. fits ws we busy (minutes d) t"
  shows "\<exists>s. free_slot_scan ws we busy d = Some (s, s + minutes d) \<and> ws \<le> s
            \<and> s + minutes d \<le> we \<and> list_all (clear_of s (minutes d)) busy"
proof -
  from assms(3) have len: "0 < minutes d" and cl: "clamp_duration d = d"
    by (simp_all add: minutes_def clamp_duration_def)
  from assms(4) obtain t where t: "ws \<le> t" "t + minutes d \<le> we"
      "\<forall>b \<in> set busy. clear_of t (minutes d) b"
    by (auto simp: fits_def list_all_iff)
  from scan_gaps_earliest[OF len t]
  obtain s where s: "scan_gaps we (minutes d) ws busy = Some (s, s + minutes d)" by blast
  have "sorted (map fst busy)" by (rule separated_sorted[OF assms(1)])
  moreover from assms(2) separated_nonempty[OF assms(1)] have "\<forall>b \<in> set busy. fst b \<le> we"
    by (fastforce simp: within_def list_all_iff)
  ultimately have "ws \<le> s \<and> s + minutes d \<le> we \<and> (\<forall>b \<in> set busy. clear_of s (minutes d) b)"
    using scan_gaps_sound[OF _ _ len s] by blast
  with s cl show ?thesis by (auto simp: free_slot_scan_def list_all_iff)
qed

theorem find_free_slot_returns_free_slot_witness:
  "separated [(hours 10, hours 11)] \<and> within (hours 9) (hours 18) [(hours 10, hours 11)]
   \<and> fits (hours 9) (hours 18) [(hours 10, hours 11)] (minutes 90) (hours 11)
   \<and> free_slot_scan (hours 9) (hours 18) [(hours 10, hours 11)] 90
       = Some (hours 11, hours 11 + minutes 90)"
proof -
  have sep: "separated [(hours 10, hours 11)]" by (simp add: hours_def)
  have win: "within (hours 9) (hours 18) [(hours 10, hours 11)]"
    by (simp add: within_def hours_def)
  have fit: "fits (hours 9) (hours 18) [(hours 10, hours 11)] (minutes 90) (hours 11)"
    by (simp add: fits_def clear_of_def hours_def minutes_def)
  then have ex: "\<exists>t. fits (hours 9) (hours 18) [(hours 10, hours 11)] (minutes 90) t" ..
  from find_free_slot_returns_free_slot[where d = 90, OF sep win _ ex]
  obtain s where "free_slot_scan (hours 9) (hours 18) [(hours 10, hours 11)] 90
      = Some (s, s + minutes 90)" by auto
  moreover have "free_slot_scan (hours 9) (hours 18) [(hours 10, hours 11)] 90
      = Some (hours 11, hours 11 + minutes 90)"
    by (simp add: free_slot_scan_def clamp_duration_def tail_gap_def hours_def minutes_def)
  ultimately show ?thesis using sep win fit by simp
qed

text \<open>
  Claim C2. For a sorted, mutually non-overlapping busy list and a positive duration, the
  returned slot is the earliest fit: no start time strictly before the returned start
  begins a slot of that duration inside the window and clear of every busy interval.
\<close>

theorem find_free_slot_earliest_fit:
  assumes "separated busy" and "0 < d" and "free_slot_scan ws we busy d = Some (s, e)"
  shows "\<not> (\<exists>t. t < s \<and> fits ws we busy (minutes d) t)"
proof
  assume "\<exists>t. t < s \<and> fits ws we busy (minutes d) t"
  then obtain t where lt: "t < s" and t: "ws \<le> t" "t + minutes d \<le> we"
      "\<forall>b \<in> set busy. clear_of t (minutes d) b"
    by (auto simp: fits_def list_all_iff)
  from assms(2) have len: "0 < minutes d" and cl: "clamp_duration d = d"
    by (simp_all add: minutes_def clamp_duration_def)
  from scan_gaps_earliest[OF len t]
  obtain s' where "scan_gaps we (minutes d) ws busy = Some (s', s' + minutes d)" "s' \<le> t"
    by blast
  with assms(3) cl have "s \<le> t" by (simp add: free_slot_scan_def)
  with lt show False by simp
qed

theorem find_free_slot_earliest_fit_witness:
  "separated [(hours 10, hours 11)]
   \<and> free_slot_scan (hours 9) (hours 18) [(hours 10, hours 11)] 90
       = Some (hours 11, hours 11 + minutes 90)
   \<and> \<not> (\<exists>t. t < hours 11 \<and> fits (hours 9) (hours 18) [(hours 10, hours 11)] (minutes 90) t)"
proof -
  have sep: "separated [(hours 10, hours 11)]" by (simp add: hours_def)
  have run: "free_slot_scan (hours 9) (hours 18) [(hours 10, hours 11)] 90
      = Some (hours 11, hours 11 + minutes 90)"
    by (simp add: free_slot_scan_def clamp_duration_def tail_gap_def hours_def minutes_def)
  from find_free_slot_earliest_fit[OF sep _ run] sep run show ?thesis by simp
qed

section \<open>Properties of the calendar and of the search over days\<close>

declare place_from.simps [simp del]

lemma set_timed: "(s, e) \<in> set (timed evs) \<longleftrightarrow> (Some s, Some e) \<in> set evs"
  by (induction evs rule: timed.induct) auto

lemma find_free_slot_Inr:
  "find_free_slot c d dur = Inr r \<longleftrightarrow>
     reachable c \<and> r = scan_gaps (day_end d) (minutes (clamp_duration dur)) (day_start d)
        (sort_key fst (timed (filter (in_window (day_start d) (day_end d)) (events c))))"
  by (auto simp: find_free_slot_def busy_intervals_for_day_def list_events_between_def
      free_slot_scan_def)

lemma find_free_slot_Inl: "find_free_slot c d dur = Inl e \<Longrightarrow> \<not> reachable c"
  by (auto simp: find_free_slot_def busy_intervals_for_day_def list_events_between_def
      split: if_splits)

lemma busy_starts_in_window:
  "b \<in> set (timed (filter (in_window lo hi) evs)) \<Longrightarrow> fst b \<le> hi"
proof -
  assume "b \<in> set (timed (filter (in_window lo hi) evs))"
  then have "(Some (fst b), Some (snd b)) \<in> set (filter (in_window lo hi) evs)"
    using set_timed[of "fst b" "snd b"] by simp
  then show ?thesis by simp
qed

lemma find_free_slot_None_mono:
  assumes "find_free_slot c d dur = Inr None" and "extends c c'"
  shows "find_free_slot c' d dur = Inr None"
proof -
  let ?lo = "day_start d" and ?hi = "day_end d" and ?len = "minutes (clamp_duration dur)"
  let ?busy = "\<lambda>c. sort_key fst (timed (filter (in_window ?lo ?hi) (events c)))"
  from assms(1) have r: "reachable c" and none: "scan_gaps ?hi ?len ?lo (?busy c) = None"
    by (simp_all add: find_free_slot_Inr)
  from assms(2) r have r': "reachable c'" and sub: "set (events c) \<subseteq> set (events c')"
    by (auto simp: extends_def)
  have "scan_gaps ?hi ?len ?lo (?busy c') = None"
  proof (rule ccontr)
    assume "scan_gaps ?hi ?len ?lo (?busy c') \<noteq> None"
    then obtain s e where some: "scan_gaps ?hi ?len ?lo (?busy c') = Some (s, e)" by auto
    have srt: "sorted (map fst (?busy c'))" by simp
    have bnd: "\<forall>b \<in> set (?busy c'). fst b \<le> ?hi"
      using busy_starts_in_window by simp
    from scan_gaps_sound[OF srt bnd clamp_duration_pos some]
    have fit: "e = s + ?len" "?lo \<le> s" "e \<le> ?hi" "\<forall>b \<in> set (?busy c'). clear_of s ?len b"
      by auto
    have "\<forall>b \<in> set (?busy c). clear_of s ?len b"
    proof
      fix b assume "b \<in> set (?busy c)"
      then have "(Some (fst b), Some (snd b)) \<in> set (filter (in_window ?lo ?hi) (events c))"
        using set_timed[of "fst b" "snd b"] by simp
      with sub have "(Some (fst b), Some (snd b)) \<in> set (filter (in_window ?lo ?hi) (events c'))"
        by auto
      then have "b \<in> set (?busy c')" using set_timed[of "fst b" "snd b"] by simp
      with fit(4) show "clear_of s ?len b" by blast
    qed
    moreover from fit have "s + ?len \<le> ?hi" by simp
    ultimately show False
      using scan_gaps_earliest[OF clamp_duration_pos fit(2), of dur ?hi "?busy c"] none by auto
  qed
  with r' show ?thesis by (simp add: find_free_slot_Inr)
qed

lemma extends_refl: "extends c c"
  by (simp add: extends_def)

lemma extends_trans: "extends a b \<Longrightarrow> extends b c \<Longrightarrow> extends a c"
  by (auto simp: extends_def)

lemma place_from_None:
  "place_from c t d last_day = Inr (c', t', None) \<Longrightarrow> c' = c \<and> t' = t"
proof (induction c t d last_day rule: place_from.induct)
  case (1 c t d last_day)
  then show ?case
    by (subst (asm) (2) place_from.simps)
       (auto simp: create_event_summary_def split: if_splits sum.splits option.splits prod.splits)
qed

lemma place_from_Some:
  "place_from c t d last_day = Inr (c', t', Some (s, e)) \<Longrightarrow>
     reachable c \<and> c' = c\<lparr>events := events c @ [(Some s, Some e)]\<rparr>
     \<and> t' = t\<lparr>status := ''planned'', planned_at := Some s,
              calendar_event_id := Some (length (events c))\<rparr>"
proof (induction c t d last_day rule: place_from.induct)
  case (1 c t d last_day)
  then show ?case
    by (subst (asm) (2) place_from.simps)
       (auto simp: create_event_summary_def split: if_splits sum.splits option.splits prod.splits)
qed

lemma place_from_None_mono:
  "place_from c t d last_day = Inr (c, t, None) \<Longrightarrow> extends c c2
   \<Longrightarrow> place_from c2 t d last_day = Inr (c2, t, None)"
proof (induction c t d last_day rule: place_from.induct)
  case (1 c t d last_day)
  show ?case
  proof (cases "d \<le> last_day")
    case False
    then show ?thesis by (subst place_from.simps) simp
  next
    case True
    let ?dur = "if duration_min t = 0 then 60 else duration_min t"
    from "1.prems"(1) True have none: "find_free_slot c d ?dur = Inr None"
      by (subst (asm) place_from.simps)
         (auto simp: create_event_summary_def split: if_splits sum.splits option.splits prod.splits)
    with "1.prems"(1) True have "place_from c t (d + 1) last_day = Inr (c, t, None)"
      by (subst (asm) place_from.simps) simp
    from "1.IH"[OF True none refl this "1.prems"(2)]
    have "place_from c2 t (d + 1) last_day = Inr (c2, t, None)" .
    moreover from find_free_slot_None_mono[OF none "1.prems"(2)]
    have "find_free_slot c2 d ?dur = Inr None" .
    ultimately show ?thesis using True by (subst place_from.simps) simp
  qed
qed

section \<open>Properties of a pass of plan\_all\_pending\<close>

lemma distinct_map_head: "distinct (map f (t # ts)) \<Longrightarrow> x \<in> set ts \<Longrightarrow> f x \<noteq> f t"
  by (metis distinct.simps(2) image_eqI list.simps(9) set_map)

lemma commit_ids: "map row_id (commit t rows) = map row_id rows"
  by (auto simp: commit_def)

lemma commit_keeps: "r \<in> set rows \<Longrightarrow> row_id r \<noteq> row_id t \<Longrightarrow> r \<in> set (commit t rows)"
  by (force simp: commit_def)

lemma commit_puts: "r \<in> set rows \<Longrightarrow> row_id r = row_id t \<Longrightarrow> t \<in> set (commit t rows)"
  by (force simp: commit_def)

lemma commit_set:
  "r \<in> set (commit t rows) \<Longrightarrow> r = t \<or> (r \<in> set rows \<and> row_id r \<noteq> row_id t)"
  by (auto simp: commit_def split: if_splits)

text \<open>The four ways one round of the loop can go.\<close>

lemma plan_tasks_Cons_cases:
  obtains
    (dated) dt where "due t = Some dt"
      "plan_tasks today w (t # ts) = \<lparr>final = w, booked = [], raised = Some TypeError\<rparr>"
  | (failed) e where "due t = None"
      "plan_tasks today w (t # ts) = \<lparr>final = w, booked = [], raised = Some e\<rparr>"
  | (unplaced) "due t = None" "place_from (cal w) t today (today + 2) = Inr (cal w, t, None)"
      "plan_tasks today w (t # ts) = plan_tasks today w ts"
  | (placed) s e t' c' where "due t = None" "reachable (cal w)"
      "c' = (cal w)\<lparr>events := events (cal w) @ [(Some s, Some e)]\<rparr>"
      "t' = t\<lparr>status := ''planned'', planned_at := Some s,
               calendar_event_id := Some (length (events (cal w)))\<rparr>"
      "plan_tasks today w (t # ts) =
         (let out = plan_tasks today \<lparr>db = commit t' (db w), cal = c'\<rparr> ts
          in out\<lparr>booked := (row_id t, s, e, calendar_event_id t') # booked out\<rparr>)"
proof (cases "due t")
  case (Some dt)
  then show ?thesis using dated by (simp add: due_key_def)
next
  case None
  then have key: "due_key today t = Date (today + 2)" by (simp add: due_key_def)
  show ?thesis
  proof (cases "place_from (cal w) t today (today + 2)")
    case (Inl e)
    with None key show ?thesis using failed by simp
  next
    case (Inr res)
    obtain c' t' slot where res: "res = (c', t', slot)" by (cases res)
    show ?thesis
    proof (cases slot)
      case slot: None
      with Inr res have "c' = cal w" "t' = t" using place_from_None by blast+
      with None key Inr res slot show ?thesis using unplaced by simp
    next
      case (Some se)
      obtain s e where se: "se = (s, e)" by (cases se)
      from place_from_Some[of "cal w" t today "today + 2" c' t' s e] Inr res Some se
      have facts: "reachable (cal w)"
        "c' = (cal w)\<lparr>events := events (cal w) @ [(Some s, Some e)]\<rparr>"
        "t' = t\<lparr>status := ''planned'', planned_at := Some s,
               calendar_event_id := Some (length (events (cal w)))\<rparr>"
        by simp_all
      then have "row_id t' = row_id t" by simp
      with None key Inr res Some se
      have "plan_tasks today w (t # ts) =
         (let out = plan_tasks today \<lparr>db = commit t' (db w), cal = c'\<rparr> ts
          in out\<lparr>booked := (row_id t, s, e, calendar_event_id t') # booked out\<rparr>)"
        by simp
      with None facts show ?thesis by (rule placed)
    qed
  qed
qed

lemma plan_tasks_extends: "extends (cal w) (cal (final (plan_tasks today w ts)))"
proof (induction ts arbitrary: w)
  case Nil
  then show ?case by (simp add: extends_refl)
next
  case (Cons t ts)
  show ?case
  proof (cases rule: plan_tasks_Cons_cases[of t today w ts])
    case (placed s e t' c')
    have "extends (cal w) c'" using placed(3) by (simp add: extends_def)
    moreover have "extends c' (cal (final (plan_tasks today \<lparr>db = commit t' (db w), cal = c'\<rparr> ts)))"
      using Cons.IH[of "\<lparr>db = commit t' (db w), cal = c'\<rparr>"] by simp
    ultimately show ?thesis using placed(5) by (auto simp: Let_def intro: extends_trans)
  qed (simp_all add: extends_refl Cons.IH)
qed

lemma plan_tasks_frame:
  "r \<in> set (db w) \<Longrightarrow> row_id r \<notin> row_id ` set ts
   \<Longrightarrow> r \<in> set (db (final (plan_tasks today w ts)))"
proof (induction ts arbitrary: w)
  case Nil
  then show ?case by simp
next
  case (Cons t ts)
  show ?case
  proof (cases rule: plan_tasks_Cons_cases[of t today w ts])
    case (placed s e t' c')
    from placed(4) have "row_id t' = row_id t" by simp
    with Cons.prems have "r \<in> set (db \<lparr>db = commit t' (db w), cal = c'\<rparr>)"
      by (simp add: commit_keeps)
    with Cons.prems have "r \<in> set (db (final (plan_tasks today \<lparr>db = commit t' (db w), cal = c'\<rparr> ts)))"
      by (intro Cons.IH) auto
    with placed(5) show ?thesis by (simp add: Let_def)
  next
    case unplaced
    with Cons show ?thesis by simp
  qed (use Cons.prems in simp_all)
qed

lemma plan_tasks_booked:
  assumes "distinct (map row_id ts)" and "set ts \<subseteq> set (db w)"
    and "(i, s, e, eid) \<in> set (booked (plan_tasks today w ts))"
  shows "\<exists>t \<in> set ts. row_id t = i \<and> eid \<noteq> None
      \<and> t\<lparr>status := ''planned'', planned_at := Some s, calendar_event_id := eid\<rparr>
          \<in> set (db (final (plan_tasks today w ts)))
      \<and> (Some s, Some e) \<in> set (events (cal (final (plan_tasks today w ts))))"
  using assms
proof (induction ts arbitrary: w)
  case Nil
  then show ?case by simp
next
  case (Cons t ts)
  show ?case
  proof (cases rule: plan_tasks_Cons_cases[of t today w ts])
    case (placed s0 e0 t' c')
    let ?w' = "\<lparr>db = commit t' (db w), cal = c'\<rparr>"
    let ?out = "plan_tasks today ?w' ts"
    from placed(4) have id': "row_id t' = row_id t" by simp
    have fin: "final (plan_tasks today w (t # ts)) = final ?out"
      and bk: "booked (plan_tasks today w (t # ts)) = (row_id t, s0, e0, calendar_event_id t') # booked ?out"
      using placed(5) by (simp_all add: Let_def)
    have sub: "set ts \<subseteq> set (db ?w')"
    proof
      fix r assume r: "r \<in> set ts"
      with Cons.prems(1) have "row_id r \<noteq> row_id t" by (rule distinct_map_head)
      with r Cons.prems(2) id' show "r \<in> set (db ?w')" by (auto intro: commit_keeps)
    qed
    from Cons.prems(3) bk
    consider (head) "(i, s, e, eid) = (row_id t, s0, e0, calendar_event_id t')"
      | (rest) "(i, s, e, eid) \<in> set (booked ?out)" by auto
    then show ?thesis
    proof cases
      case head
      from Cons.prems(2) id' have "t' \<in> set (db ?w')" by (auto intro: commit_puts)
      moreover from Cons.prems(1) id' have "row_id t' \<notin> row_id ` set ts" by auto
      ultimately have "t' \<in> set (db (final ?out))" by (rule plan_tasks_frame)
      moreover have "(Some s0, Some e0) \<in> set (events (cal ?w'))" using placed(3) by simp
      then have "(Some s0, Some e0) \<in> set (events (cal (final ?out)))"
        using plan_tasks_extends[of ?w' today ts] by (auto simp: extends_def)
      ultimately show ?thesis using head fin placed(4) by auto
    next
      case rest
      from Cons.prems(1) have "distinct (map row_id ts)" by simp
      from Cons.IH[OF this sub rest] fin show ?thesis by auto
    qed
  next
    case unplaced
    with Cons show ?thesis by auto
  qed (use Cons.prems in simp_all)
qed

lemma plan_tasks_undated:
  "raised (plan_tasks today w ts) = None \<Longrightarrow> \<forall>t \<in> set ts. due t = None"
proof (induction ts arbitrary: w)
  case Nil
  then show ?case by simp
next
  case (Cons t ts)
  show ?case
  proof (cases rule: plan_tasks_Cons_cases[of t today w ts])
    case (placed s e t' c')
    with Cons.prems have "raised (plan_tasks today \<lparr>db = commit t' (db w), cal = c'\<rparr> ts) = None"
      by (simp add: Let_def)
    from Cons.IH[OF this] placed(1) show ?thesis by simp
  next
    case unplaced
    with Cons show ?thesis by simp
  qed (use Cons.prems in simp_all)
qed

lemma plan_tasks_pending:
  assumes "raised (plan_tasks today w ts) = None" and "distinct (map row_id ts)"
    and "set ts \<subseteq> set (db w)" and "r \<in> set (db (final (plan_tasks today w ts)))"
    and "status r = ''pending''"
  shows "r \<in> set (db w) \<and> (r \<in> set ts \<longrightarrow>
      place_from (cal (final (plan_tasks today w ts))) r today (today + 2)
        = Inr (cal (final (plan_tasks today w ts)), r, None))"
  using assms
proof (induction ts arbitrary: w)
  case Nil
  then show ?case by simp
next
  case (Cons t ts)
  show ?case
  proof (cases rule: plan_tasks_Cons_cases[of t today w ts])
    case (placed s0 e0 t' c')
    let ?w' = "\<lparr>db = commit t' (db w), cal = c'\<rparr>"
    let ?out = "plan_tasks today ?w' ts"
    from placed(4) have id': "row_id t' = row_id t" and st': "status t' = ''planned''" by simp_all
    have fin: "final (plan_tasks today w (t # ts)) = final ?out"
      and rs: "raised (plan_tasks today w (t # ts)) = raised ?out"
      using placed(5) by (simp_all add: Let_def)
    have sub: "set ts \<subseteq> set (db ?w')"
    proof
      fix x assume x: "x \<in> set ts"
      with Cons.prems(2) have "row_id x \<noteq> row_id t" by (rule distinct_map_head)
      with x Cons.prems(3) id' show "x \<in> set (db ?w')" by (auto intro: commit_keeps)
    qed
    from Cons.prems rs fin have "raised ?out = None" "distinct (map row_id ts)"
      "r \<in> set (db (final ?out))" by simp_all
    from Cons.IH[OF this(1,2) sub this(3) Cons.prems(5)]
    have r': "r \<in> set (db ?w')"
      and un: "r \<in> set ts \<longrightarrow> place_from (cal (final ?out)) r today (today + 2)
        = Inr (cal (final ?out), r, None)" by simp_all
    from r' commit_set[of r t' "db w"] Cons.prems(5) st' id'
    have "r \<in> set (db w)" "row_id r \<noteq> row_id t" by auto
    with un fin show ?thesis by auto
  next
    case unplaced
    let ?out = "plan_tasks today w ts"
    from Cons.prems unplaced have "raised ?out = None" "distinct (map row_id ts)"
      "set ts \<subseteq> set (db w)" "r \<in> set (db (final ?out))" by simp_all
    from Cons.IH[OF this Cons.prems(5)]
    have r': "r \<in> set (db w)"
      and un: "r \<in> set ts \<longrightarrow> place_from (cal (final ?out)) r today (today + 2)
        = Inr (cal (final ?out), r, None)" by simp_all
    have "place_from (cal (final ?out)) t today (today + 2) = Inr (cal (final ?out), t, None)"
      using place_from_None_mono[OF unplaced(2) plan_tasks_extends] .
    with r' un unplaced(3) show ?thesis by auto
  qed (use Cons.prems in simp_all)
qed

lemma plan_tasks_nothing_to_do:
  "\<forall>t \<in> set ts. due t = None \<and> place_from (cal w) t today (today + 2) = Inr (cal w, t, None)
   \<Longrightarrow> plan_tasks today w ts = \<lparr>final = w, booked = [], raised = None\<rparr>"
  by (induction ts) (simp_all add: due_key_def)

lemma sort_tasks_Inr:
  "sort_tasks today ps = Inr ts \<Longrightarrow> ts = sort_key (sort_value today) ps"
  by (simp add: sort_tasks_def split: if_splits)

lemma pending_ids_distinct:
  "distinct (map row_id rows)
   \<Longrightarrow> distinct (map row_id (sort_key k (filter P rows)))"
  by (simp add: distinct_map distinct_map_filter inj_on_def)

text \<open>
  Claim C4, as the code has it. After every successful booking in a pass, the row of the
  booked task has status \<open>planned\<close> (the code has no status \<open>scheduled\<close>), its
  \<^verbatim>\<open>calendar_event_id\<close> is the id the calendar returned, which is not null, and its
  \<^verbatim>\<open>planned_at\<close> is the start of the created event. The column \<^verbatim>\<open>due\<close> is left as it was.
\<close>

theorem booked_task_fields:
  assumes "distinct (map row_id (db w))"
    and "(i, s, e, eid) \<in> set (booked (plan_all_pending today w))"
  shows "\<exists>t t'. t \<in> set (db w) \<and> t' \<in> set (db (final (plan_all_pending today w)))
      \<and> row_id t = i \<and> row_id t' = i \<and> status t = ''pending''
      \<and> status t' = ''planned'' \<and> calendar_event_id t' = eid \<and> eid \<noteq> None
      \<and> planned_at t' = Some s \<and> due t' = due t
      \<and> (Some s, Some e) \<in> set (events (cal (final (plan_all_pending today w))))"
proof -
  let ?ps = "filter (\<lambda>t. status t = ''pending'') (db w)"
  from assms(2) obtain ts where srt: "sort_tasks today ?ps = Inr ts"
    by (cases "sort_tasks today ?ps") (auto simp: plan_all_pending_def)
  then have ts: "ts = sort_key (sort_value today) ?ps" by (rule sort_tasks_Inr)
  from srt have out: "plan_all_pending today w = plan_tasks today w ts"
    by (simp add: plan_all_pending_def)
  have dist: "distinct (map row_id ts)" unfolding ts
    by (rule pending_ids_distinct[OF assms(1)])
  have sub: "set ts \<subseteq> set (db w)" and pend: "\<forall>t \<in> set ts. status t = ''pending''"
    by (auto simp: ts)
  from plan_tasks_booked[OF dist sub, of i s e eid today] assms(2) out
  obtain t where t: "t \<in> set ts" "row_id t = i" "eid \<noteq> None"
      "t\<lparr>status := ''planned'', planned_at := Some s, calendar_event_id := eid\<rparr>
         \<in> set (db (final (plan_all_pending today w)))"
      "(Some s, Some e) \<in> set (events (cal (final (plan_all_pending today w))))"
    by auto
  let ?t' = "t\<lparr>status := ''planned'', planned_at := Some s, calendar_event_id := eid\<rparr>"
  from t sub pend have "t \<in> set (db w)" "status t = ''pending''" by auto
  with t show ?thesis
    by (intro exI[of _ t] exI[of _ ?t']) simp
qed

theorem booked_task_fields_witness:
  "distinct (map row_id (db \<lparr>db = [\<lparr>row_id = 1, row_title = ''Write report'', due = None,
        duration_min = 60, priority = 3, planned_at = None, calendar_event_id = None,
        status = ''pending''\<rparr>], cal = \<lparr>events = [], reachable = True\<rparr>\<rparr>))
   \<and> (1, day_start 5, day_start 5 + minutes 60, Some 0) \<in> set (booked (plan_all_pending 5
        \<lparr>db = [\<lparr>row_id = 1, row_title = ''Write report'', due = None,
        duration_min = 60, priority = 3, planned_at = None, calendar_event_id = None,
        status = ''pending''\<rparr>], cal = \<lparr>events = [], reachable = True\<rparr>\<rparr>))
   \<and> (\<exists>t'. t' \<in> set (db (final (plan_all_pending 5
        \<lparr>db = [\<lparr>row_id = 1, row_title = ''Write report'', due = None,
        duration_min = 60, priority = 3, planned_at = None, calendar_event_id = None,
        status = ''pending''\<rparr>], cal = \<lparr>events = [], reachable = True\<rparr>\<rparr>)))
      \<and> row_id t' = 1 \<and> status t' = ''planned'' \<and> calendar_event_id t' = Some 0
      \<and> planned_at t' = Some (day_start 5) \<and> due t' = None)"
proof -
  let ?w = "\<lparr>db = [\<lparr>row_id = 1, row_title = ''Write report'', due = None,
        duration_min = 60, priority = 3, planned_at = None, calendar_event_id = None,
        status = ''pending''\<rparr>], cal = \<lparr>events = [], reachable = True\<rparr>\<rparr>"
  have d: "distinct (map row_id (db ?w))" by simp
  have b: "(1, day_start 5, day_start 5 + minutes 60, Some 0) \<in> set (booked (plan_all_pending 5 ?w))"
    by code_simp
  from booked_task_fields[OF d b]
  obtain t t' where "t \<in> set (db ?w)" "t' \<in> set (db (final (plan_all_pending 5 ?w)))"
    "row_id t' = 1" "status t' = ''planned''" "calendar_event_id t' = Some 0"
    "planned_at t' = Some (day_start 5)" "due t' = due t"
    by blast
  then have "\<exists>t'. t' \<in> set (db (final (plan_all_pending 5 ?w)))
      \<and> row_id t' = 1 \<and> status t' = ''planned'' \<and> calendar_event_id t' = Some 0
      \<and> planned_at t' = Some (day_start 5) \<and> due t' = None"
    by auto
  with d b show ?thesis by blast
qed

text \<open>
  Claim C4 as stated fails: one pending task, an empty calendar. The task is booked at
  09:00; afterwards its status is \<open>planned\<close>, not \<open>scheduled\<close>, and its \<^verbatim>\<open>due\<close> is still
  absent, not the placed start.
\<close>

theorem booking_sets_planned_not_scheduled:
  "booked (plan_all_pending 5
      \<lparr>db = [\<lparr>row_id = 1, row_title = ''Write report'', due = None,
        duration_min = 60, priority = 3, planned_at = None, calendar_event_id = None,
        status = ''pending''\<rparr>], cal = \<lparr>events = [], reachable = True\<rparr>\<rparr>)
     = [(1, day_start 5, day_start 5 + minutes 60, Some 0)]
   \<and> \<not> list_all (\<lambda>t. status t = ''scheduled'' \<and> calendar_event_id t \<noteq> None
          \<and> due t = Some (day_start 5))
        (db (final (plan_all_pending 5
      \<lparr>db = [\<lparr>row_id = 1, row_title = ''Write report'', due = None,
        duration_min = 60, priority = 3, planned_at = None, calendar_event_id = None,
        status = ''pending''\<rparr>], cal = \<lparr>events = [], reachable = True\<rparr>\<rparr>)))
   \<and> map status (db (final (plan_all_pending 5
      \<lparr>db = [\<lparr>row_id = 1, row_title = ''Write report'', due = None,
        duration_min = 60, priority = 3, planned_at = None, calendar_event_id = None,
        status = ''pending''\<rparr>], cal = \<lparr>events = [], reachable = True\<rparr>\<rparr>))) = [''planned'']
   \<and> map due (db (final (plan_all_pending 5
      \<lparr>db = [\<lparr>row_id = 1, row_title = ''Write report'', due = None,
        duration_min = 60, priority = 3, planned_at = None, calendar_event_id = None,
        status = ''pending''\<rparr>], cal = \<lparr>events = [], reachable = True\<rparr>\<rparr>))) = [None]"
  by code_simp

text \<open>
  Claim C7. When a pass has completed, a second pass right after it, on the rows and the
  calendar the first one left, books nothing and changes no row: no new booking, and no
  \<^verbatim>\<open>calendar_event_id\<close> of an already booked task changes.
\<close>

theorem second_pass_books_nothing:
  assumes "distinct (map row_id (db w))" and "raised (plan_all_pending today w) = None"
  shows "plan_all_pending today (final (plan_all_pending today w))
      = \<lparr>final = final (plan_all_pending today w), booked = [], raised = None\<rparr>"
proof -
  let ?pending = "\<lambda>t. status t = ''pending''"
  let ?ps = "filter ?pending (db w)"
  let ?w1 = "final (plan_all_pending today w)"
  from assms(2) obtain ts where srt: "sort_tasks today ?ps = Inr ts"
    by (cases "sort_tasks today ?ps") (auto simp: plan_all_pending_def)
  then have ts: "ts = sort_key (sort_value today) ?ps" by (rule sort_tasks_Inr)
  from srt have out: "plan_all_pending today w = plan_tasks today w ts"
    by (simp add: plan_all_pending_def)
  have dist: "distinct (map row_id ts)" unfolding ts
    by (rule pending_ids_distinct[OF assms(1)])
  have sub: "set ts \<subseteq> set (db w)" by (auto simp: ts)
  from assms(2) out have ok: "raised (plan_tasks today w ts) = None" by simp
  have left: "due r = None \<and> place_from (cal ?w1) r today (today + 2) = Inr (cal ?w1, r, None)"
    if "r \<in> set (filter ?pending (db ?w1))" for r
  proof -
    from that have r: "r \<in> set (db (final (plan_tasks today w ts)))" "status r = ''pending''"
      by (simp_all add: out)
    from plan_tasks_pending[OF ok dist sub r]
    have "r \<in> set (db w)" and un: "r \<in> set ts \<longrightarrow>
        place_from (cal ?w1) r today (today + 2) = Inr (cal ?w1, r, None)"
      by (simp_all add: out)
    with r(2) have "r \<in> set ts" by (simp add: ts)
    with un plan_tasks_undated[OF ok] show ?thesis by simp
  qed
  then have "\<not> list_ex (\<lambda>t. due t \<noteq> None) (filter ?pending (db ?w1))"
    by (auto simp: list_ex_iff)
  then have "sort_tasks today (filter ?pending (db ?w1))
      = Inr (sort_key (sort_value today) (filter ?pending (db ?w1)))"
    by (simp add: sort_tasks_def)
  moreover have "plan_tasks today ?w1 (sort_key (sort_value today) (filter ?pending (db ?w1)))
      = \<lparr>final = ?w1, booked = [], raised = None\<rparr>"
    by (rule plan_tasks_nothing_to_do) (use left in simp)
  ultimately show ?thesis by (simp add: plan_all_pending_def)
qed

theorem second_pass_books_nothing_witness:
  "distinct (map row_id (db \<lparr>db =
       [\<lparr>row_id = 1, row_title = ''Write report'', due = None, duration_min = 60, priority = 3,
          planned_at = None, calendar_event_id = None, status = ''pending''\<rparr>,
        \<lparr>row_id = 2, row_title = ''Call bank'', due = None, duration_min = 60, priority = 5,
          planned_at = None, calendar_event_id = None, status = ''pending''\<rparr>],
      cal = \<lparr>events = [(Some (day_start 5), Some (day_end 5)),
                        (Some (day_start 6), Some (day_end 6)),
                        (Some (day_start 7), Some (days 7 + hours 17))],
             reachable = True\<rparr>\<rparr>))
   \<and> booked (plan_all_pending 5 \<lparr>db =
       [\<lparr>row_id = 1, row_title = ''Write report'', due = None, duration_min = 60, priority = 3,
          planned_at = None, calendar_event_id = None, status = ''pending''\<rparr>,
        \<lparr>row_id = 2, row_title = ''Call bank'', due = None, duration_min = 60, priority = 5,
          planned_at = None, calendar_event_id = None, status = ''pending''\<rparr>],
      cal = \<lparr>events = [(Some (day_start 5), Some (day_end 5)),
                        (Some (day_start 6), Some (day_end 6)),
                        (Some (day_start 7), Some (days 7 + hours 17))],
             reachable = True\<rparr>\<rparr>) = [(2, days 7 + hours 17, days 7 + hours 18, Some 3)]
   \<and> raised (plan_all_pending 5 \<lparr>db =
       [\<lparr>row_id = 1, row_title = ''Write report'', due = None, duration_min = 60, priority = 3,
          planned_at = None, calendar_event_id = None, status = ''pending''\<rparr>,
        \<lparr>row_id = 2, row_title = ''Call bank'', due = None, duration_min = 60, priority = 5,
          planned_at = None, calendar_event_id = None, status = ''pending''\<rparr>],
      cal = \<lparr>events = [(Some (day_start 5), Some (day_end 5)),
                        (Some (day_start 6), Some (day_end 6)),
                        (Some (day_start 7), Some (days 7 + hours 17))],
             reachable = True\<rparr>\<rparr>) = None
   \<and> booked (plan_all_pending 5 (final (plan_all_pending 5 \<lparr>db =
       [\<lparr>row_id = 1, row_title = ''Write report'', due = None, duration_min = 60, priority = 3,
          planned_at = None, calendar_event_id = None, status = ''pending''\<rparr>,
        \<lparr>row_id = 2, row_title = ''Call bank'', due = None, duration_min = 60, priority = 5,
          planned_at = None, calendar_event_id = None, status = ''pending''\<rparr>],
      cal = \<lparr>events = [(Some (day_start 5), Some (day_end 5)),
                        (Some (day_start 6), Some (day_end 6)),
                        (Some (day_start 7), Some (days 7 + hours 17))],
             reachable = True\<rparr>\<rparr>))) = []"
proof -
  let ?w = "\<lparr>db =
       [\<lparr>row_id = 1, row_title = ''Write report'', due = None, duration_min = 60, priority = 3,
          planned_at = None, calendar_event_id = None, status = ''pending''\<rparr>,
        \<lparr>row_id = 2, row_title = ''Call bank'', due = None, duration_min = 60, priority = 5,
          planned_at = None, calendar_event_id = None, status = ''pending''\<rparr>],
      cal = \<lparr>events = [(Some (day_start 5), Some (day_end 5)),
                        (Some (day_start 6), Some (day_end 6)),
                        (Some (day_start 7), Some (days 7 + hours 17))],
             reachable = True\<rparr>\<rparr>"
  have d: "distinct (map row_id (db ?w))" by simp
  have b: "booked (plan_all_pending 5 ?w) = [(2, days 7 + hours 17, days 7 + hours 18, Some 3)]"
    by code_simp
  have r: "raised (plan_all_pending 5 ?w) = None" by code_simp
  from second_pass_books_nothing[OF d r]
  have "booked (plan_all_pending 5 (final (plan_all_pending 5 ?w))) = []" by simp
  with d b r show ?thesis by blast
qed

text \<open>
  Claim C5 says that no failure of the calendar adapter leaves the pass and that every
  task gets a result. Nothing in \<^verbatim>\<open>plan_all_pending\<close> catches an exception: with the
  calendar out of reach the first request for the busy intervals raises, the pass ends
  there and the second task is never considered.
\<close>

theorem pass_aborts_when_calendar_fails:
  "plan_all_pending 5 \<lparr>db =
       [\<lparr>row_id = 1, row_title = ''Write report'', due = None, duration_min = 60, priority = 3,
          planned_at = None, calendar_event_id = None, status = ''pending''\<rparr>,
        \<lparr>row_id = 2, row_title = ''Call bank'', due = None, duration_min = 60, priority = 5,
          planned_at = None, calendar_event_id = None, status = ''pending''\<rparr>],
      cal = \<lparr>events = [], reachable = False\<rparr>\<rparr>
   = \<lparr>final = \<lparr>db =
       [\<lparr>row_id = 1, row_title = ''Write report'', due = None, duration_min = 60, priority = 3,
          planned_at = None, calendar_event_id = None, status = ''pending''\<rparr>,
        \<lparr>row_id = 2, row_title = ''Call bank'', due = None, duration_min = 60, priority = 5,
          planned_at = None, calendar_event_id = None, status = ''pending''\<rparr>],
      cal = \<lparr>events = [], reachable = False\<rparr>\<rparr>, booked = [], raised = Some AdapterError\<rparr>"
  by code_simp

text \<open>
  Claim C6 orders the attempts by effective due date. The keys of a task with a due date
  and of one without are a datetime and a date: sorting the two raises \<^verbatim>\<open>TypeError\<close>.
  With due dates only the sort succeeds, and \<^verbatim>\<open>min(today, last_day)\<close> raises for the
  first task. In both passes no task is attempted.
\<close>

theorem due_dates_abort_the_pass:
  "raised (plan_all_pending 5 \<lparr>db =
       [\<lparr>row_id = 1, row_title = ''Submit form'', due = Some (days 6 + hours 10), duration_min = 60,
          priority = 3, planned_at = None, calendar_event_id = None, status = ''pending''\<rparr>,
        \<lparr>row_id = 2, row_title = ''Call bank'', due = None, duration_min = 60, priority = 3,
          planned_at = None, calendar_event_id = None, status = ''pending''\<rparr>],
      cal = \<lparr>events = [], reachable = True\<rparr>\<rparr>) = Some TypeError
   \<and> booked (plan_all_pending 5 \<lparr>db =
       [\<lparr>row_id = 1, row_title = ''Submit form'', due = Some (days 6 + hours 10), duration_min = 60,
          priority = 3, planned_at = None, calendar_event_id = None, status = ''pending''\<rparr>,
        \<lparr>row_id = 2, row_title = ''Call bank'', due = None, duration_min = 60, priority = 3,
          planned_at = None, calendar_event_id = None, status = ''pending''\<rparr>],
      cal = \<lparr>events = [], reachable = True\<rparr>\<rparr>) = []
   \<and> raised (plan_all_pending 5 \<lparr>db =
       [\<lparr>row_id = 1, row_title = ''Submit form'', due = Some (days 6 + hours 10), duration_min = 60,
          priority = 3, planned_at = None, calendar_event_id = None, status = ''pending''\<rparr>,
        \<lparr>row_id = 2, row_title = ''Pay rent'', due = Some (days 7 + hours 10), duration_min = 60,
          priority = 3, planned_at = None, calendar_event_id = None, status = ''pending''\<rparr>],
      cal = \<lparr>events = [], reachable = True\<rparr>\<rparr>) = Some TypeError
   \<and> booked (plan_all_pending 5 \<lparr>db =
       [\<lparr>row_id = 1, row_title = ''Submit form'', due = Some (days 6 + hours 10), duration_min = 60,
          priority = 3, planned_at = None, calendar_event_id = None, status = ''pending''\<rparr>,
        \<lparr>row_id = 2, row_title = ''Pay rent'', due = Some (days 7 + hours 10), duration_min = 60,
          priority = 3, planned_at = None, calendar_event_id = None, status = ''pending''\<rparr>],
      cal = \<lparr>events = [], reachable = True\<rparr>\<rparr>) = []"
  by code_simp

text \<open>What is left of the order, and how far the defect reaches: a sort that returns
  has ordered the tasks by key, and one pending task with a due date ends the pass.\<close>

lemma sort_tasks_order:
  "sort_tasks today ps = Inr ts \<Longrightarrow> sorted (map (sort_value today) ts) \<and> set ts = set ps"
  by (auto simp: sort_tasks_def split: if_splits)

lemma pending_due_date_raises:
  assumes "t \<in> set (db w)" and "status t = ''pending''" and "due t \<noteq> None"
  shows "plan_all_pending today w = \<lparr>final = w, booked = [], raised = Some TypeError\<rparr>"
proof -
  let ?ps = "filter (\<lambda>t. status t = ''pending'') (db w)"
  from assms have mem: "t \<in> set ?ps" by simp
  show ?thesis
  proof (cases "sort_tasks today ?ps")
    case (Inl e)
    then have "e = TypeError" by (simp add: sort_tasks_def split: if_splits)
    with Inl show ?thesis by (simp add: plan_all_pending_def)
  next
    case (Inr ts)
    then have ts: "ts = sort_key (sort_value today) ?ps"
      and all: "\<not> list_ex (\<lambda>t. due t = None) ?ps"
      using mem assms(3) by (auto simp: sort_tasks_def list_ex_iff split: if_splits)
    from mem ts have "ts \<noteq> []" by (metis empty_iff list.set(1) set_sort)
    then obtain a rest where ar: "ts = a # rest" by (cases ts) auto
    then have "a \<in> set ?ps" using ts by (metis list.set_intros(1) set_sort)
    with all obtain dt where "due a = Some dt" by (auto simp: list_ex_iff)
    with Inr ar show ?thesis by (simp add: plan_all_pending_def due_key_def)
  qed
qed

section \<open>Properties of the bucket classification\<close>

lemma date_of_tomorrow: "date_of (now + days 1) = date_of now + 1"
  by (simp add: date_of_def days_def)

lemma plan_task_idem: "plan_task now (plan_task now t) = plan_task now t"
  by (simp add: plan_task_def split: option.splits)

lemma fold_plan_store:
  "fold (\<lambda>r h. h(r := plan_task now (h r))) refs h r =
     (if r \<in> set refs then plan_task now (h r) else h r)"
  by (induction refs arbitrary: h) (auto simp: plan_task_idem)

text \<open>
  Claim C8. After \<^verbatim>\<open>simple_plan\<close>, a task that awaits clarification is in bucket
  \<open>unscheduled\<close> whatever its due date; any other task is in bucket \<open>today\<close> exactly when
  the calendar date of its due date is the current date, in \<open>tomorrow\<close> exactly when it is
  the current date plus one day, and in \<open>unscheduled\<close> exactly when the due date is absent
  or falls on any other date.
\<close>

theorem simple_plan_buckets:
  assumes "r \<in> set (tasks state)"
  shows "let t = store state r; t' = store (simple_plan now state) r in
     (needsClarification t \<longrightarrow> planDay t' = ''unscheduled'') \<and>
     (\<not> needsClarification t \<longrightarrow>
        (planDay t' = ''today'' \<longleftrightarrow> (\<exists>d. dueDate t = Some d \<and> date_of d = date_of now)) \<and>
        (planDay t' = ''tomorrow'' \<longleftrightarrow> (\<exists>d. dueDate t = Some d \<and> date_of d = date_of now + 1)) \<and>
        (planDay t' = ''unscheduled'' \<longleftrightarrow>
           (dueDate t = None \<or> (\<exists>d. dueDate t = Some d \<and> date_of d \<noteq> date_of now
              \<and> date_of d \<noteq> date_of now + 1))))"
proof -
  from assms have "store (simple_plan now state) r = plan_task now (store state r)"
    by (simp add: simple_plan_def fold_plan_store)
  then show ?thesis
    by (auto simp: plan_task_def date_of_tomorrow Let_def split: option.splits)
qed

theorem simple_plan_buckets_witness:
  "(0::nat) \<in> set (tasks \<lparr>store = (\<lambda>r. \<lparr>task_id = ''t1'', title = ''Write report'',
         dueDate = Some (days 5 + hours 10), duration = Some 60, planDay = ''unscheduled'',
         needsClarification = False, pendingQuestions = [], calendarEventId = None,
         isExternal = False\<rparr>), tasks = [0]\<rparr>)
   \<and> planDay (store (simple_plan (days 5 + hours 8)
        \<lparr>store = (\<lambda>r. \<lparr>task_id = ''t1'', title = ''Write report'',
         dueDate = Some (days 5 + hours 10), duration = Some 60, planDay = ''unscheduled'',
         needsClarification = False, pendingQuestions = [], calendarEventId = None,
         isExternal = False\<rparr>), tasks = [0]\<rparr>) 0) = ''today''"
proof -
  let ?t = "\<lparr>task_id = ''t1'', title = ''Write report'',
         dueDate = Some (days 5 + hours 10), duration = Some 60, planDay = ''unscheduled'',
         needsClarification = False, pendingQuestions = [], calendarEventId = None,
         isExternal = False\<rparr>"
  let ?S = "\<lparr>store = (\<lambda>r. ?t), tasks = [0]\<rparr>"
  have mem: "(0::nat) \<in> set (tasks ?S)" by simp
  have d: "date_of (days 5 + hours 10) = date_of (days 5 + hours 8)"
    by (simp add: date_of_def days_def hours_def)
  from simple_plan_buckets[OF mem, of "days 5 + hours 8"] d
  have "planDay (store (simple_plan (days 5 + hours 8) ?S) 0) = ''today''"
    by (simp add: Let_def)
  with mem show ?thesis by simp
qed

section \<open>Properties of the step-jump slot finder\<close>

text \<open>
  Claim C9. The gap scan and the step-jump scanner are not equivalent: for one busy
  interval 09:00-09:02, a request at 09:00 and 30 minutes, the gap scan starts the slot at
  09:02 and the step-jump scanner, which rounds up to the next multiple of five minutes,
  at 09:05.
\<close>

theorem slot_finders_disagree:
  "\<exists>busy d dur s e s'.
     free_slot_scan (day_start d) (day_end d) busy dur = Some (s, e)
     \<and> google_find_free_slot True (\<lambda>time_min time_max. Inr busy) (day_start d) dur = Inr s'
     \<and> s \<noteq> s'"
proof -
  let ?busy = "[(hours 9, hours 9 + minutes 2)]"
  have gap: "free_slot_scan (day_start 0) (day_end 0) ?busy 30
      = Some (hours 9 + minutes 2, hours 9 + minutes 32)"
    by code_simp
  have jump: "google_find_free_slot True (\<lambda>time_min time_max. Inr ?busy) (day_start 0) 30
      = Inr (hours 9 + minutes 5)"
    by code_simp
  have "hours 9 + minutes 2 \<noteq> hours 9 + minutes 5"
    by (simp add: minutes_def)
  with gap jump show ?thesis by blast
qed

text \<open>What holds of the fallbacks: the \<^verbatim>\<open>try\<close> block never raises, a failed free/busy
  query gives back the adjusted start, and so does a scan that finds nothing, also when
  that start is busy.\<close>

lemma scan_from_returns: "\<exists>t. scan_from freebusy start_time duration_minutes = Inr t"
  by (simp add: scan_from_def split: sum.splits)

lemma scan_from_query_fails:
  "freebusy start_time (start_time + days 3) = Inl e
   \<Longrightarrow> scan_from freebusy start_time duration_minutes = Inr start_time"
  by (simp add: scan_from_def)

lemma google_find_free_slot_before_18:
  "hour start_time < 18 \<Longrightarrow> \<exists>t. google_find_free_slot has_service freebusy start_time duration_minutes = Inr t"
  using scan_from_returns by (simp add: google_find_free_slot_def)

lemma fallback_overlaps_busy:
  "google_find_free_slot True (\<lambda>time_min time_max. Inr [(hours 9, hours 17 + minutes 30)]) (hours 9) 60
     = Inr (hours 9)"
  by code_simp

text \<open>
  Claim C10 says that the step-jump finder never signals failure. For a request at or
  after 18:00, with the calendar service present, the adjustment of the start time raises
  \<^verbatim>\<open>TypeError\<close> before the \<^verbatim>\<open>try\<close> block is entered.
\<close>

theorem google_find_free_slot_raises_after_hours:
  "google_find_free_slot True freebusy (hours 19) 60 = Inl TypeError"
  by (simp add: google_find_free_slot_def hour_def hours_def)

section \<open>Properties of the scheduling flows\<close>

lemma gmail_task_flags:
  "isExternal (gmail_task uuid ttl due_dt dur) \<and> \<not> needsClarification (gmail_task uuid ttl due_dt dur)"
  by (simp add: gmail_task_def)

lemma schedule_auto_task_keeps:
  "needsClarification (store (app (schedule_auto_task g r run)) x)
     = needsClarification (store (app run) x)"
  "tasks (app (schedule_auto_task g r run)) = tasks (app run)"
  by (auto simp: schedule_auto_task_def Let_def split: option.splits sum.splits prod.splits)

lemma schedule_auto_task_bookings:
  "b \<in> set (bookings (schedule_auto_task g r run)) \<Longrightarrow> b \<in> set (bookings run) \<or> fst b = r"
  by (auto simp: schedule_auto_task_def Let_def split: option.splits sum.splits prod.splits if_splits)

lemma schedule_new_task_keeps:
  "needsClarification (store (app (schedule_new_task g now r run)) x)
     = needsClarification (store (app run) x)"
  "tasks (app (schedule_new_task g now r run)) = tasks (app run)"
  by (auto simp: schedule_new_task_def Let_def split: option.splits sum.splits prod.splits)

lemma schedule_new_task_bookings:
  "b \<in> set (bookings (schedule_new_task g now r run)) \<Longrightarrow> b \<in> set (bookings run) \<or> fst b = r"
  by (auto simp: schedule_new_task_def Let_def split: option.splits sum.splits prod.splits if_splits)

lemma fold_keeps:
  assumes "\<And>r run x. needsClarification (store (app (step r run)) x)
             = needsClarification (store (app run) x)"
  shows "needsClarification (store (app (fold step rs run)) x)
     = needsClarification (store (app run) x)"
  by (induction rs arbitrary: run) (simp_all add: assms)

lemma fold_bookings:
  assumes "\<And>r run b. b \<in> set (bookings (step r run)) \<Longrightarrow> b \<in> set (bookings run) \<or> fst b = r"
    and "b \<in> set (bookings (fold step rs run))"
  shows "b \<in> set (bookings run) \<or> fst b \<in> set rs"
  using assms(2)
proof (induction rs arbitrary: run)
  case Nil
  then show ?case by simp
next
  case (Cons r rs)
  then have "b \<in> set (bookings (step r run)) \<or> fst b \<in> set rs" by simp
  with assms(1)[of b r run] show ?case by auto
qed

lemma plan_task_keeps: "needsClarification (plan_task now t) = needsClarification t"
  by (simp add: plan_task_def split: option.splits)

lemma simple_plan_keeps:
  "needsClarification (store (simple_plan now state) x) = needsClarification (store state x)"
  by (simp add: simple_plan_def fold_plan_store plan_task_keeps)

lemma ai_plan_keeps:
  "needsClarification (store (ai_plan ai rs state) x) = needsClarification (store state x)"
  unfolding ai_plan_def
  by (induction rs arbitrary: state) (auto split: option.splits)

lemma append_new_titles_store: "store (append_new_titles rs state) = store state"
  unfolding append_new_titles_def
  by (induction rs arbitrary: state) auto

lemma append_new_titles_tasks:
  "set (tasks (append_new_titles rs state)) \<subseteq> set (tasks state) \<union> set rs"
proof (induction rs arbitrary: state)
  case Nil
  then show ?case by (simp add: append_new_titles_def)
next
  case (Cons a rs)
  let ?s' = "if list_ex (\<lambda>x. lower (title (store state x)) = lower (title (store state a)))
                  (tasks state)
             then state else state\<lparr>tasks := tasks state @ [a]\<rparr>"
  have step: "append_new_titles (a # rs) state = append_new_titles rs ?s'"
    by (simp add: append_new_titles_def)
  have "set (tasks ?s') \<subseteq> set (tasks state) \<union> {a}" by auto
  with Cons.IH[of ?s'] show ?case unfolding step by auto
qed

text \<open>
  Claim C3, as the code has it. A task whose \<^verbatim>\<open>needsClarification\<close> is true is never booked:
  every booking of \<^verbatim>\<open>run_full_sync\<close> and of \<^verbatim>\<open>run_agent_flow\<close> is for a task whose flag
  is false, before and after the flow. \<^verbatim>\<open>isExternal\<close> is not consulted: \<^verbatim>\<open>run_full_sync\<close>
  books the tasks of the Gmail sync (built with \<^verbatim>\<open>isExternal=True\<close>) and the tasks of the
  state that had no due date, and no other; \<^verbatim>\<open>run_agent_flow\<close> books new tasks only.
\<close>

theorem clarification_blocks_booking:
  assumes "\<forall>x \<in> set gmail_tasks. \<exists>uuid ttl due_dt dur. store state x = gmail_task uuid ttl due_dt dur"
  shows "((r, s, e) \<in> set (bookings (run_full_sync g get_ai_deadline now state w gmail_tasks)) \<longrightarrow>
           \<not> needsClarification (store state r)
           \<and> \<not> needsClarification
                 (store (app (run_full_sync g get_ai_deadline now state w gmail_tasks)) r)
           \<and> (r \<in> set gmail_tasks \<or> r \<in> set (tasks state) \<and> dueDate (store state r) = None))
       \<and> ((r', s', e') \<in> set (bookings (run_agent_flow g now state' w' new_tasks)) \<longrightarrow>
           r' \<in> set new_tasks \<and> \<not> needsClarification (store state' r')
           \<and> \<not> needsClarification (store (app (run_agent_flow g now state' w' new_tasks)) r'))"
proof (intro conjI impI)
  let ?state1 = "append_new_titles gmail_tasks state"
  let ?plan = "filter (needs_deadline ?state1) (tasks ?state1)"
  let ?state2 = "ai_plan get_ai_deadline ?plan ?state1"
  let ?sched = "filter (\<lambda>r. dueDate (store ?state2 r) \<noteq> None) ?plan"
  let ?gmail = "filter (\<lambda>r. dueDate (store ?state2 r) \<noteq> None
                   \<and> \<not> list_ex (\<lambda>x. store ?state2 x = store ?state2 r) ?sched) gmail_tasks"
  let ?run = "fold (schedule_auto_task g) (?sched @ ?gmail)
                \<lparr>app = ?state2, service = w, bookings = []\<rparr>"
  assume "(r, s, e) \<in> set (bookings (run_full_sync g get_ai_deadline now state w gmail_tasks))"
  then have "(r, s, e) \<in> set (bookings ?run)"
    by (simp add: run_full_sync_def Let_def)
  from fold_bookings[OF schedule_auto_task_bookings this]
  have "r \<in> set ?sched \<or> r \<in> set ?gmail" by simp
  then have cases: "r \<in> set gmail_tasks \<or>
      (r \<in> set (tasks ?state1) \<and> needs_deadline ?state1 r)" by auto
  have nc0: "\<not> needsClarification (store state r)"
    and src: "r \<in> set gmail_tasks \<or> r \<in> set (tasks state) \<and> dueDate (store state r) = None"
  proof -
    from cases show "\<not> needsClarification (store state r)"
    proof
      assume "r \<in> set gmail_tasks"
      with assms show ?thesis using gmail_task_flags by fastforce
    next
      assume "r \<in> set (tasks ?state1) \<and> needs_deadline ?state1 r"
      then show ?thesis by (simp add: needs_deadline_def append_new_titles_store)
    qed
    from cases show "r \<in> set gmail_tasks \<or> r \<in> set (tasks state) \<and> dueDate (store state r) = None"
      using append_new_titles_tasks[of gmail_tasks state]
      by (auto simp: needs_deadline_def append_new_titles_store)
  qed
  have "needsClarification (store (app (run_full_sync g get_ai_deadline now state w gmail_tasks)) r)
      = needsClarification (store state r)"
    by (simp add: run_full_sync_def Let_def simple_plan_keeps
        fold_keeps[of "schedule_auto_task g", OF schedule_auto_task_keeps(1)]
        ai_plan_keeps append_new_titles_store)
  with nc0 src show "\<not> needsClarification (store state r)"
    "\<not> needsClarification (store (app (run_full_sync g get_ai_deadline now state w gmail_tasks)) r)"
    "r \<in> set gmail_tasks \<or> r \<in> set (tasks state) \<and> dueDate (store state r) = None"
    by simp_all
next
  let ?state1 = "state'\<lparr>tasks := tasks state' @ new_tasks\<rparr>"
  let ?sched = "filter (\<lambda>r. \<not> needsClarification (store ?state1 r)) new_tasks"
  let ?run = "fold (schedule_new_task g now) ?sched \<lparr>app = ?state1, service = w', bookings = []\<rparr>"
  assume b: "(r', s', e') \<in> set (bookings (run_agent_flow g now state' w' new_tasks))"
  then have ne: "new_tasks \<noteq> []" by (auto simp: run_agent_flow_def)
  with b have "(r', s', e') \<in> set (bookings ?run)"
    by (simp add: run_agent_flow_def Let_def)
  from fold_bookings[OF schedule_new_task_bookings this]
  have "r' \<in> set ?sched" by simp
  then have mem: "r' \<in> set new_tasks" and nc0: "\<not> needsClarification (store state' r')"
    by simp_all
  have "needsClarification (store (app (run_agent_flow g now state' w' new_tasks)) r')
      = needsClarification (store state' r')"
    using ne
    by (simp add: run_agent_flow_def Let_def simple_plan_keeps
        fold_keeps[of "schedule_new_task g now", OF schedule_new_task_keeps(1)])
  with mem nc0 show "r' \<in> set new_tasks" "\<not> needsClarification (store state' r')"
    "\<not> needsClarification (store (app (run_agent_flow g now state' w' new_tasks)) r')"
    by simp_all
qed

theorem clarification_blocks_booking_witness:
  "(0, days 5 + hours 10, days 5 + hours 11) \<in> set (bookings (run_full_sync
      \<lparr>cal_service = (\<lambda>w. True), freebusy_query = (\<lambda>w time_min time_max. Inr []),
        insert_event = (\<lambda>w summary start_t end_t. (Inr (Some ''evt1''), Suc w))\<rparr>
      (\<lambda>ttl. None) (days 5 + hours 8)
      \<lparr>store = (\<lambda>r. gmail_task ''u1'' ''Submit report'' (Some (days 5 + hours 10)) 60), tasks = []\<rparr>
      (0::nat) [0]))
   \<and> \<not> needsClarification (store
      \<lparr>store = (\<lambda>r. gmail_task ''u1'' ''Submit report'' (Some (days 5 + hours 10)) 60), tasks = []\<rparr> 0)
   \<and> (1, days 5 + hours 14, days 5 + hours 15) \<in> set (bookings (run_agent_flow
      \<lparr>cal_service = (\<lambda>w. True), freebusy_query = (\<lambda>w time_min time_max. Inr []),
        insert_event = (\<lambda>w summary start_t end_t. (Inr (Some ''evt1''), Suc w))\<rparr>
      (days 5 + hours 8)
      \<lparr>store = (\<lambda>r. \<lparr>task_id = ''v1'', title = ''Meet anika'', dueDate = Some (days 5 + hours 14),
         duration = Some 60, planDay = ''unscheduled'', needsClarification = False,
         pendingQuestions = [], calendarEventId = None, isExternal = False\<rparr>), tasks = []\<rparr>
      (0::nat) [1]))
   \<and> \<not> needsClarification (store
      \<lparr>store = (\<lambda>r. \<lparr>task_id = ''v1'', title = ''Meet anika'', dueDate = Some (days 5 + hours 14),
         duration = Some 60, planDay = ''unscheduled'', needsClarification = False,
         pendingQuestions = [], calendarEventId = None, isExternal = False\<rparr>), tasks = []\<rparr> 1)"
proof -
  let ?g = "\<lparr>cal_service = (\<lambda>w::nat. True), freebusy_query = (\<lambda>w time_min time_max. Inr []),
        insert_event = (\<lambda>w summary start_t end_t. (Inr (Some ''evt1''), Suc w))\<rparr>"
  let ?S = "\<lparr>store = (\<lambda>r. gmail_task ''u1'' ''Submit report'' (Some (days 5 + hours 10)) 60),
        tasks = []\<rparr>"
  let ?S' = "\<lparr>store = (\<lambda>r. \<lparr>task_id = ''v1'', title = ''Meet anika'',
         dueDate = Some (days 5 + hours 14),
         duration = Some 60, planDay = ''unscheduled'', needsClarification = False,
         pendingQuestions = [], calendarEventId = None, isExternal = False\<rparr>), tasks = []\<rparr>"
  have gm: "\<forall>x \<in> set [0::nat]. \<exists>uuid ttl due_dt dur. store ?S x = gmail_task uuid ttl due_dt dur"
    by auto
  have b1: "(0, days 5 + hours 10, days 5 + hours 11) \<in> set (bookings (run_full_sync ?g
      (\<lambda>ttl. None) (days 5 + hours 8) ?S 0 [0]))"
    by code_simp
  have b2: "(1, days 5 + hours 14, days 5 + hours 15) \<in> set (bookings (run_agent_flow ?g
      (days 5 + hours 8) ?S' 0 [1]))"
    by code_simp
  from clarification_blocks_booking[OF gm, where r = 0 and s = "days 5 + hours 10"
      and e = "days 5 + hours 11" and g = ?g and get_ai_deadline = "\<lambda>ttl. None"
      and now = "days 5 + hours 8" and w = 0 and r' = 1 and s' = "days 5 + hours 14"
      and e' = "days 5 + hours 15" and state' = ?S' and w' = 0 and new_tasks = "[1]"] b1 b2
  have "\<not> needsClarification (store ?S 0) \<and> \<not> needsClarification (store ?S' 1)"
    by blast
  with b1 b2 show ?thesis by blast
qed

text \<open>
  Claim C3 as stated fails for external tasks: a task of the Gmail sync, built with
  \<^verbatim>\<open>isExternal=True\<close> and due at 10:00, is booked by \<^verbatim>\<open>run_full_sync\<close> from 10:00 to 11:00.
\<close>

theorem external_gmail_task_is_booked:
  "bookings (run_full_sync
      \<lparr>cal_service = (\<lambda>w. True), freebusy_query = (\<lambda>w time_min time_max. Inr []),
        insert_event = (\<lambda>w summary start_t end_t. (Inr (Some ''evt1''), Suc w))\<rparr>
      (\<lambda>ttl. None) (days 5 + hours 8)
      \<lparr>store = (\<lambda>r. gmail_task ''u1'' ''Submit report'' (Some (days 5 + hours 10)) 60), tasks = []\<rparr>
      (0::nat) [0])
     = [(0, days 5 + hours 10, days 5 + hours 11)]
   \<and> isExternal (store
      \<lparr>store = (\<lambda>r. gmail_task ''u1'' ''Submit report'' (Some (days 5 + hours 10)) 60), tasks = []\<rparr> 0)"
  by code_simp

end
